theory Spec2Isabelle
  imports Main "HOL-Library.Word"
begin

unbundle bit_operations_syntax

section \<open>The PB12 encoder of \<^verbatim>\<open>src/boot/util/pb12.c\<close>\<close>

text \<open>
  The program reads at most \<^verbatim>\<open>0x4000\<close> bytes of its input file into the static buffer
  \<^verbatim>\<open>source\<close>, drops the trailing zero bytes, and encodes the rest in one \<^verbatim>\<open>while (true)\<close>
  loop. The model follows \<^verbatim>\<open>main\<close> from the \<^verbatim>\<open>fread\<close> on: a byte is an 8-bit word, the
  \<^verbatim>\<open>unsigned\<close> variables \<^verbatim>\<open>control\<close> and \<^verbatim>\<open>prev[2]\<close> are 32-bit words, the counters
  \<^verbatim>\<open>pos\<close>, \<^verbatim>\<open>size\<close>, \<^verbatim>\<open>bits\<close> and \<^verbatim>\<open>literals_size\<close> are natural numbers (the
  invariant proved below keeps them at most \<^verbatim>\<open>0x4000\<close>, \<^verbatim>\<open>10\<close> and \<^verbatim>\<open>4\<close>, so they never wrap). The output file
  is the list of the bytes written so far. A failed \<^verbatim>\<open>assert\<close> and a write past the end of
  the array \<^verbatim>\<open>literals\<close> are results of their own. The argument check, \<^verbatim>\<open>fopen\<close> and the
  error exit of \<^verbatim>\<open>write_all\<close> are outside the model: both files are taken to be open and
  every write to succeed.
\<close>

type_synonym u8 = "8 word"
type_synonym unsigned = "32 word"

datatype error =
    AssertSize        \<comment> \<open>\<^verbatim>\<open>assert(size <= 0x4000)\<close> failed\<close>
  | AssertOutctl      \<comment> \<open>\<^verbatim>\<open>assert(outctl != 1)\<close> failed\<close>
  | LiteralsOverflow  \<comment> \<open>\<^verbatim>\<open>literals[literals_size++]\<close> with \<^verbatim>\<open>literals_size >= 8\<close>\<close>

subsection \<open>\<^verbatim>\<open>opts\<close>\<close>

text \<open>
  The parameter \<^verbatim>\<open>byte\<close> is a \<^verbatim>\<open>uint8_t\<close>; C promotes it to \<^verbatim>\<open>int\<close> in every expression
  and the assignment to \<^verbatim>\<open>*(options++)\<close> truncates the result to 8 bits again.
\<close>

definition opts :: "u8 \<Rightarrow> u8 list" where
  "opts byte =
     (let b = (ucast byte :: 32 word) in
      [ucast (b OR (push_bit 1 b AND 0xff)),
       ucast (b AND push_bit 1 b),
       ucast (b OR (drop_bit 1 b AND 0xff)),
       ucast (b AND drop_bit 1 b)])"

subsection \<open>The state of the loop in \<^verbatim>\<open>main\<close>\<close>

record state =
  pos :: nat
  literals :: "u8 list"
  literals_size :: nat
  bits :: nat
  control :: unsigned
  prev0 :: unsigned
  prev1 :: unsigned
  output' :: "u8 list"

text \<open>
  \<^verbatim>\<open>unsigned prev[2] = {-1, -1}\<close>: both slots start as \<^verbatim>\<open>0xFFFFFFFF\<close>. The array
  \<^verbatim>\<open>literals\<close> is not initialised in C; only its first \<^verbatim>\<open>literals_size\<close> bytes are ever
  read, and the model starts it with zeros.
\<close>

definition init_state :: state where
  "init_state =
     \<lparr>pos = 0, literals = replicate 8 0, literals_size = 0, bits = 0, control = 0,
      prev0 = - 1, prev1 = - 1, output' = []\<rparr>"

subsection \<open>Trailing zeros\<close>

text \<open>\<^verbatim>\<open>while (size && source[size - 1] == 0) size--;\<close>\<close>

function trim :: "u8 list \<Rightarrow> nat \<Rightarrow> nat" where
  "trim source size' =
     (if size' \<noteq> 0 \<and> source ! (size' - 1) = 0 then trim source (size' - 1) else size')"
  by pat_completeness auto
termination
  by (relation "measure (\<lambda>(source, size'). size')") auto

subsection \<open>One byte: classification\<close>

text \<open>
  The \<^verbatim>\<open>for\<close> loop over the four options, from index \<open>i\<close> on: the first index whose
  option equals \<^verbatim>\<open>byte\<close>, or \<open>None\<close> when the loop ends with \<^verbatim>\<open>found\<close> still false.
\<close>

function find_option :: "u8 list \<Rightarrow> u8 \<Rightarrow> nat \<Rightarrow> nat option" where
  "find_option options byte i =
     (if i < 4 then
        (if options ! i = byte then Some i else find_option options byte (i + 1))
      else None)"
  by pat_completeness auto
termination
  by (relation "measure (\<lambda>(options, byte, i). 4 - i)") auto

text \<open>
  Lines 86 to 125: the control bits of one byte, the literal queue and the two
  predictor slots. In \<^verbatim>\<open>byte == prev[0]\<close> the byte is converted to \<^verbatim>\<open>unsigned\<close>; in
  \<^verbatim>\<open>opts(prev[1], options)\<close> the slot is truncated to \<^verbatim>\<open>uint8_t\<close>.
\<close>

definition encode_byte :: "state \<Rightarrow> u8 \<Rightarrow> error + state" where
  "encode_byte s byte =
     (if ucast byte = prev0 s \<or> ucast byte = prev1 s then
        let control1 = push_bit 1 (push_bit 1 (control s) OR 1);
            control2 = (if ucast byte = prev1 s then control1 OR 1 else control1)
        in Inr (s\<lparr>bits := bits s + 2, control := control2,
                  prev0 := prev1 s, prev1 := ucast byte\<rparr>)
      else
        let bits1 = bits s + 2;
            control1 = push_bit 2 (control s);
            options = opts (ucast (prev1 s))
        in case find_option options byte 0 of
             Some i \<Rightarrow>
               Inr (s\<lparr>bits := bits1 + 2,
                      control := push_bit 2 (control1 OR 1) OR of_nat i,
                      prev0 := prev1 s, prev1 := ucast byte\<rparr>)
           | None \<Rightarrow>
               if literals_size s < 8 then
                 Inr (s\<lparr>bits := bits1, control := control1,
                        literals := (literals s)[literals_size s := byte],
                        literals_size := literals_size s + 1,
                        prev0 := prev1 s, prev1 := ucast byte\<rparr>)
               else Inl LiteralsOverflow)"

subsection \<open>One byte: flush\<close>

text \<open>Lines 126 to 135. \<^verbatim>\<open>write_all\<close> appends to the output file.\<close>

definition flush :: "state \<Rightarrow> error + state" where
  "flush s =
     (if 8 \<le> bits s then
        let outctl = (ucast (drop_bit (bits s - 8) (control s)) :: u8) in
        if outctl = 1 then Inl AssertOutctl
        else
          let bits' = bits s - 8 in
          Inr (s\<lparr>output' := output' s @ [outctl] @ take (literals_size s) (literals s),
                 bits := bits',
                 control := control s AND (push_bit bits' 1 - 1),
                 literals_size := 0\<rparr>)
      else Inr s)"

definition body :: "state \<Rightarrow> u8 \<Rightarrow> error + state" where
  "body s byte = (case encode_byte s byte of Inl e \<Rightarrow> Inl e | Inr s1 \<Rightarrow> flush s1)"

subsection \<open>The loop\<close>

text \<open>
  One pass through the body of \<^verbatim>\<open>while (true)\<close>: \<open>None\<close> is the \<^verbatim>\<open>break\<close>, otherwise the
  state at the end of the body or the failure that stopped the program.
\<close>

definition iteration :: "u8 list \<Rightarrow> nat \<Rightarrow> state \<Rightarrow> (error + state) option" where
  "iteration source size' s =
     (if pos s = size' then
        (if bits s = 0 then None else Some (body s 0))
      else Some (body (s\<lparr>pos := pos s + 1\<rparr>) (source ! pos s)))"

text \<open>
  The loop has no bound of its own, so it is a partial function: \<open>None\<close> would be a run
  that never leaves the loop.
\<close>

partial_function (option) loop :: "u8 list \<Rightarrow> nat \<Rightarrow> state \<Rightarrow> (error + state) option" where
  "loop source size' s =
     (case iteration source size' s of
        None \<Rightarrow> Some (Inr s)
      | Some (Inl e) \<Rightarrow> Some (Inl e)
      | Some (Inr s') \<Rightarrow> loop source size' s')"

declare loop.simps [code]

text \<open>The state after \<open>n\<close> passes through the body (fewer when the loop ends before).\<close>

fun iterations :: "u8 list \<Rightarrow> nat \<Rightarrow> nat \<Rightarrow> state \<Rightarrow> error + state" where
  "iterations source size' 0 s = Inr s"
| "iterations source size' (Suc n) s =
     (case iteration source size' s of
        None \<Rightarrow> Inr s
      | Some (Inl e) \<Rightarrow> Inl e
      | Some (Inr s') \<Rightarrow> iterations source size' n s')"

subsection \<open>\<^verbatim>\<open>main\<close>\<close>

text \<open>
  \<^verbatim>\<open>fread(source, 1, sizeof(source), input)\<close> on the open input file: the first
  \<^verbatim>\<open>0x4000\<close> bytes of the file, or all of it when it is shorter. \<^verbatim>\<open>size\<close> is the number
  of bytes read.
\<close>

definition fread_source :: "u8 list \<Rightarrow> u8 list" where
  "fread_source input = take 0x4000 input"

text \<open>
  The result of \<^verbatim>\<open>main\<close> is the content of the output file after the final
  \<^verbatim>\<open>write_all(output, &end_byte, 1)\<close>, or the failure that aborted the program.
\<close>

definition pb12_main :: "u8 list \<Rightarrow> (error + u8 list) option" where
  "pb12_main input =
     (let source = fread_source input; size0 = length source in
      if \<not> size0 \<le> 0x4000 then Some (Inl AssertSize)
      else
        case loop source (trim source size0) init_state of
          None \<Rightarrow> None
        | Some (Inl e) \<Rightarrow> Some (Inl e)
        | Some (Inr s) \<Rightarrow> Some (Inr (output' s @ [1])))"

subsection \<open>Notions used by the properties\<close>

text \<open>The bytes \<^verbatim>\<open>source[0 .. size)\<close> that the loop encodes, after the trailing zeros are dropped.\<close>

definition trimmed :: "u8 list \<Rightarrow> u8 list" where
  "trimmed source = take (trim source (length source)) source"

text \<open>
  The output file as a sequence of records: each flush writes one control byte and then
  the queued literals.
\<close>

definition record_stream :: "(u8 \<times> u8 list) list \<Rightarrow> u8 list" where
  "record_stream recs = concat (map (\<lambda>(c, ls). c # ls) recs)"

text \<open>
  The format of the output as the specification gives it (its control-bit table and its
  description of the output file), read the way a decoder reads it. A control byte is four
  2-bit codes, most significant first (\<open>fields\<close>). Code \<open>0\<close> is a literal event, codes \<open>2\<close>
  and \<open>3\<close> are the two repeats, code \<open>1\<close> announces a predicted transform whose index is the
  next code, which may be the first code of the next control byte (the carry).
  \<open>literal_count\<close> counts the literal events of a run of codes and returns the carry;
  \<open>frame_carry\<close> says that every record has a control byte other than the end byte \<^verbatim>\<open>0x01\<close>
  and exactly as many literal bytes as its control byte has literal events.
\<close>

fun codes :: "nat \<Rightarrow> nat \<Rightarrow> nat list" where
  "codes 0 u = []"
| "codes (Suc k) u = codes k (u div 4) @ [u mod 4]"

definition fields :: "u8 \<Rightarrow> nat list" where
  "fields c = codes 4 (unat c)"

fun literal_count :: "bool \<Rightarrow> nat list \<Rightarrow> nat \<times> bool" where
  "literal_count carry [] = (0, carry)"
| "literal_count True (f # fs) = literal_count False fs"
| "literal_count False (f # fs) =
     (if f = 0 then (Suc (fst (literal_count False fs)), snd (literal_count False fs))
      else if f = 1 then literal_count True fs
      else literal_count False fs)"

fun frame_carry :: "bool \<Rightarrow> (u8 \<times> u8 list) list \<Rightarrow> bool option" where
  "frame_carry carry [] = Some carry"
| "frame_carry carry ((c, ls) # recs) =
     (if c \<noteq> 1 \<and> length ls = fst (literal_count carry (fields c))
      then frame_carry (snd (literal_count carry (fields c))) recs
      else None)"

text \<open>
  The pending control bits of the encoder as a list of 2-bit codes, oldest first, and
  their value as a number. \<open>frame_inv\<close> ties the state of the encoder to the format: the
  bytes written so far are well-framed records, the pending bits are the codes \<open>fs\<close>, and
  the literals in the queue are those of the literal events among \<open>fs\<close>.
\<close>

definition fval :: "nat list \<Rightarrow> nat" where
  "fval fs = foldl (\<lambda>a f. 4 * a + f) 0 fs"

definition frame_inv :: "state \<Rightarrow> bool" where
  "frame_inv s \<longleftrightarrow>
     (\<exists>recs cin fs. output' s = record_stream recs \<and> frame_carry False recs = Some cin \<and>
        2 * length fs = bits s \<and> list_all (\<lambda>f. f < 4) fs \<and>
        control s = of_nat (fval fs) \<and> literal_count cin fs = (literals_size s, False))"

text \<open>
  What holds each time the loop is at the top of its body, and what holds of its result.
\<close>

definition loop_inv :: "nat \<Rightarrow> state \<Rightarrow> bool" where
  "loop_inv size' s \<longleftrightarrow>
     pos s \<le> size' \<and> bits s \<in> {0, 2, 4, 6} \<and> 2 * literals_size s \<le> bits s \<and>
     length (literals s) = 8 \<and> frame_inv s"

definition loop_post :: "nat \<Rightarrow> error + state \<Rightarrow> bool" where
  "loop_post size' r =
     (case r of Inl e \<Rightarrow> e = AssertOutctl
      | Inr s \<Rightarrow> loop_inv size' s \<and> pos s = size' \<and> bits s = 0)"

declare trim.simps [simp del] find_option.simps [simp del]

section \<open>Properties\<close>

subsection \<open>The two halves of the loop body\<close>

lemma encode_byte_cases:
  assumes "literals_size s < 8"
  shows "\<exists>s1. encode_byte s byte = Inr s1 \<and> pos s1 = pos s \<and> output' s1 = output' s \<and>
           prev0 s1 = prev1 s \<and> prev1 s1 = ucast byte \<and>
           length (literals s1) = length (literals s) \<and>
           ((bits s1 = bits s + 2 \<and> literals_size s1 = literals_size s) \<or>
            (bits s1 = bits s + 4 \<and> literals_size s1 = literals_size s) \<or>
            (bits s1 = bits s + 2 \<and> literals_size s1 = literals_size s + 1))"
  using assms by (auto simp: encode_byte_def Let_def split: option.splits)

lemma encode_byte_repeat:
  assumes "ucast byte = prev1 s"
  shows "\<exists>s1. encode_byte s byte = Inr s1 \<and> pos s1 = pos s \<and> output' s1 = output' s \<and>
           prev0 s1 = prev1 s \<and> prev1 s1 = ucast byte \<and> literals s1 = literals s \<and>
           bits s1 = bits s + 2 \<and> literals_size s1 = literals_size s"
  using assms by (simp add: encode_byte_def Let_def)

lemma flush_small: "bits s1 < 8 \<Longrightarrow> flush s1 = Inr s1"
  by (simp add: flush_def)

lemma flush_big:
  assumes "8 \<le> bits s1"
  shows "flush s1 = Inl AssertOutctl \<or>
         (\<exists>s2 c. flush s1 = Inr s2 \<and> c \<noteq> 1 \<and> pos s2 = pos s1 \<and> prev0 s2 = prev0 s1 \<and>
            prev1 s2 = prev1 s1 \<and> literals s2 = literals s1 \<and> literals_size s2 = 0 \<and>
            bits s2 = bits s1 - 8 \<and>
            output' s2 = output' s1 @ c # take (literals_size s1) (literals s1))"
  using assms by (auto simp: flush_def Let_def)

lemma record_stream_snoc: "record_stream (recs @ [(c, ls)]) = record_stream recs @ c # ls"
  by (simp add: record_stream_def)

subsection \<open>Control bits\<close>

lemma ctl_rep0: "push_bit 1 (push_bit 1 (c::32 word) OR 1) = push_bit 2 c + 2"
  by (simp add: push_bit_eq_mult or_one_eq algebra_simps)

lemma ctl_rep01: "(push_bit 2 (c::32 word) + 2) OR 1 = push_bit 2 c + 3"
  by (simp add: push_bit_eq_mult or_one_eq algebra_simps)

lemma ctl_pred0: "push_bit 2 (push_bit 2 (c::32 word) OR 1) OR of_nat 0 = push_bit 4 c + 4"
  by (simp add: push_bit_eq_mult or_one_eq algebra_simps)

lemma opts0: "opts p ! 0 = p OR (push_bit 1 p AND 0xff)"
proof -
  have "(0xff::32 word) = mask 8" "(0xff::8 word) = mask 8"
    by (simp_all add: mask_eq_exp_minus_1)
  then show ?thesis
    unfolding opts_def Let_def
    by (simp only: nth_Cons_0 bit_eq_iff bit_simps) auto
qed

lemma find_option_lt: "find_option os b j = Some i \<Longrightarrow> i < 4"
proof (induction os b j rule: find_option.induct)
  case (1 options byte i')
  then show ?case
    by (subst (asm) (2) find_option.simps) (auto split: if_splits)
qed

lemma push4_and3: "(16 * (c::32 word) + 4) AND 3 = 0"
proof -
  have "16 * c + 4 = push_bit 2 (4 * c + 1)" by (simp add: push_bit_eq_mult)
  moreover have "(3::32 word) = mask 2" by (simp add: mask_eq_exp_minus_1)
  ultimately show ?thesis
    by (simp only: bit_eq_iff bit_simps) auto
qed

lemma ctl_pred:
  assumes "i < 4"
  shows "push_bit 2 (push_bit 2 (c::32 word) OR 1) OR of_nat i = 16 * c + 4 + of_nat i"
proof -
  have a: "push_bit 2 (push_bit 2 c OR 1) = 16 * c + 4"
    by (simp add: push_bit_eq_mult or_one_eq algebra_simps)
  have "(of_nat i :: 32 word) AND 3 = of_nat i"
  proof -
    from assms have "i = 0 \<or> i = 1 \<or> i = 2 \<or> i = 3" by auto
    then show ?thesis by auto
  qed
  then have h: "3 AND (of_nat i :: 32 word) = of_nat i" by (simp only: and.commute)
  have "(16 * c + 4) AND of_nat i = (16 * c + 4) AND (3 AND of_nat i)" by (simp only: h)
  also have "\<dots> = ((16 * c + 4) AND 3) AND of_nat i" by (simp only: and.assoc)
  also have "\<dots> = 0" by (simp only: push4_and3) simp
  finally have "(16 * c + 4) AND of_nat i = 0" .
  then have "(16 * c + 4) + of_nat i = (16 * c + 4) OR of_nat i"
    by (rule disjunctive_add_eq_or)
  with a show ?thesis by simp
qed

subsection \<open>The encoder keeps the output well framed\<close>

lemma fval_snoc: "fval (fs @ [f]) = 4 * fval fs + f"
  by (simp add: fval_def)

lemma fval_single: "fval [e] = e"
  by (simp add: fval_def)

lemma fval_bound: "list_all (\<lambda>f. f < 4) fs \<Longrightarrow> fval fs < 4 ^ length fs"
proof (induction fs rule: rev_induct)
  case Nil
  then show ?case by (simp add: fval_def)
next
  case (snoc f fs)
  then have "fval fs < 4 ^ length fs" "f < 4" by simp_all
  then have "4 * fval fs + f < 4 * 4 ^ length fs" by arith
  then show ?case by (simp add: fval_snoc)
qed

lemma codes_fval: "list_all (\<lambda>f. f < 4) fs \<Longrightarrow> codes (length fs) (fval fs) = fs"
proof (induction fs rule: rev_induct)
  case Nil
  then show ?case by simp
next
  case (snoc f fs)
  then have f: "f < 4" and ih: "codes (length fs) (fval fs) = fs" by simp_all
  from f have "(4 * fval fs + f) div 4 = fval fs" "(4 * fval fs + f) mod 4 = f" by simp_all
  then show ?case by (simp add: fval_snoc ih)
qed

lemma literal_count_append:
  "literal_count c (xs @ ys) =
     (fst (literal_count c xs) + fst (literal_count (snd (literal_count c xs)) ys),
      snd (literal_count (snd (literal_count c xs)) ys))"
  by (induction c xs rule: literal_count.induct) simp_all

lemma frame_carry_snoc:
  "frame_carry c (recs @ [r]) =
     (case frame_carry c recs of None \<Rightarrow> None | Some c1 \<Rightarrow> frame_carry c1 [r])"
  by (induction c recs rule: frame_carry.induct) simp_all

lemma frame_carry_ctl:
  "frame_carry c recs = Some c' \<Longrightarrow> (a, ls) \<in> set recs \<Longrightarrow> a \<noteq> 1"
  by (induction c recs rule: frame_carry.induct) (auto split: if_splits)

lemma unat_outctl:
  assumes "v < 2 ^ 32"
  shows "unat (ucast (drop_bit m (of_nat v :: 32 word)) :: u8) = (v div 2 ^ m) mod 256"
proof -
  have v: "unat (of_nat v :: 32 word) = v" using assms by (simp add: unat_of_nat)
  have "unat (ucast (drop_bit m (of_nat v :: 32 word)) :: u8) =
          take_bit 8 (unat (drop_bit m (of_nat v :: 32 word)))"
    by (simp only: unsigned_ucast_eq) simp
  also have "unat (drop_bit m (of_nat v :: 32 word)) = drop_bit m (unat (of_nat v :: 32 word))"
    by (rule unat_drop_bit_eq)
  finally show ?thesis by (simp only: v take_bit_eq_mod drop_bit_eq_div) simp
qed

lemma of_nat_and_3: "(of_nat v :: 32 word) AND 3 = of_nat (v mod 4)"
proof -
  have "(3::32 word) = mask 2" by (simp add: mask_eq_exp_minus_1)
  then have "(of_nat v :: 32 word) AND 3 = take_bit 2 (of_nat v)"
    by (simp only: take_bit_eq_mask)
  also have "\<dots> = of_nat (take_bit 2 v)" by (simp only: take_bit_of_nat)
  finally show ?thesis by (simp add: take_bit_eq_mod)
qed

lemma enc_rep1:
  "ucast byte = prev1 s \<Longrightarrow>
   \<exists>s1. encode_byte s byte = Inr s1 \<and> output' s1 = output' s \<and> literals s1 = literals s \<and>
     literals_size s1 = literals_size s \<and> bits s1 = bits s + 2 \<and>
     control s1 = push_bit 2 (control s) + 3"
  unfolding encode_byte_def Let_def ctl_rep0 ctl_rep01 by auto

lemma enc_rep0:
  "ucast byte = prev0 s \<Longrightarrow> ucast byte \<noteq> prev1 s \<Longrightarrow>
   \<exists>s1. encode_byte s byte = Inr s1 \<and> output' s1 = output' s \<and> literals s1 = literals s \<and>
     literals_size s1 = literals_size s \<and> bits s1 = bits s + 2 \<and>
     control s1 = push_bit 2 (control s) + 2"
  unfolding encode_byte_def Let_def ctl_rep0 ctl_rep01 by auto

lemma enc_pred:
  assumes "ucast byte \<noteq> prev0 s" "ucast byte \<noteq> prev1 s"
    and "find_option (opts (ucast (prev1 s))) byte 0 = Some i"
  shows "\<exists>s1. encode_byte s byte = Inr s1 \<and> output' s1 = output' s \<and> literals s1 = literals s \<and>
     literals_size s1 = literals_size s \<and> bits s1 = bits s + 4 \<and>
     control s1 = 16 * control s + 4 + of_nat i"
proof -
  have "i < 4" using assms(3) by (rule find_option_lt)
  then have c: "push_bit 2 (push_bit 2 (control s) OR 1) OR of_nat i = 16 * control s + 4 + of_nat i"
    by (rule ctl_pred)
  show ?thesis
    unfolding encode_byte_def Let_def assms(3) option.case c
    using assms(1,2) by auto
qed

lemma enc_lit:
  assumes "ucast byte \<noteq> prev0 s" "ucast byte \<noteq> prev1 s"
    and "find_option (opts (ucast (prev1 s))) byte 0 = None" and "literals_size s < 8"
  shows "\<exists>s1. encode_byte s byte = Inr s1 \<and> output' s1 = output' s \<and>
     length (literals s1) = length (literals s) \<and>
     literals_size s1 = literals_size s + 1 \<and> bits s1 = bits s + 2 \<and>
     control s1 = 4 * control s"
  unfolding encode_byte_def Let_def assms(3) option.case
  using assms(1,2,4) by (auto simp: push_bit_eq_mult)

lemma encode_fields:
  assumes "literals_size s < 8" "control s = of_nat (fval fs)"
  shows "\<exists>s1 new. encode_byte s byte = Inr s1 \<and> output' s1 = output' s \<and>
           length (literals s1) = length (literals s) \<and>
           control s1 = of_nat (fval (fs @ new)) \<and> bits s1 = bits s + 2 * length new \<and>
           list_all (\<lambda>f. f < 4) new \<and> (length new = 1 \<or> (\<exists>i. new = [1, i])) \<and>
           snd (literal_count False new) = False \<and>
           literals_size s1 = literals_size s + fst (literal_count False new)"
proof -
  consider (r1) "ucast byte = prev1 s"
    | (r0) "ucast byte = prev0 s" "ucast byte \<noteq> prev1 s"
    | (p) i where "ucast byte \<noteq> prev0 s" "ucast byte \<noteq> prev1 s"
        "find_option (opts (ucast (prev1 s))) byte 0 = Some i"
    | (l) "ucast byte \<noteq> prev0 s" "ucast byte \<noteq> prev1 s"
        "find_option (opts (ucast (prev1 s))) byte 0 = None"
    by (cases "find_option (opts (ucast (prev1 s))) byte 0") blast+
  then show ?thesis
  proof cases
    case r1
    from enc_rep1 [OF r1] obtain s1 where s1: "encode_byte s byte = Inr s1"
      "output' s1 = output' s" "literals s1 = literals s" "literals_size s1 = literals_size s"
      "bits s1 = bits s + 2" "control s1 = push_bit 2 (control s) + 3" by blast
    have "control s1 = of_nat (fval (fs @ [3]))"
      using s1(6) assms(2) by (simp add: fval_snoc push_bit_eq_mult)
    with s1 show ?thesis
      by (intro exI [of _ s1] exI [of _ "[3]"]) simp
  next
    case r0
    from enc_rep0 [OF r0] obtain s1 where s1: "encode_byte s byte = Inr s1"
      "output' s1 = output' s" "literals s1 = literals s" "literals_size s1 = literals_size s"
      "bits s1 = bits s + 2" "control s1 = push_bit 2 (control s) + 2" by blast
    have "control s1 = of_nat (fval (fs @ [2]))"
      using s1(6) assms(2) by (simp add: fval_snoc push_bit_eq_mult)
    with s1 show ?thesis
      by (intro exI [of _ s1] exI [of _ "[2]"]) simp
  next
    case p
    from enc_pred [OF p] obtain s1 where s1: "encode_byte s byte = Inr s1"
      "output' s1 = output' s" "literals s1 = literals s" "literals_size s1 = literals_size s"
      "bits s1 = bits s + 4" "control s1 = 16 * control s + 4 + of_nat i" by blast
    have i: "i < 4" using p(3) by (rule find_option_lt)
    have "fval (fs @ [1, i]) = 4 * (4 * fval fs + 1) + i"
      using fval_snoc [of "fs @ [1]" i] fval_snoc [of fs 1] by simp
    then have "control s1 = of_nat (fval (fs @ [1, i]))"
      using s1(6) assms(2) by simp
    with s1 i show ?thesis
      by (intro exI [of _ s1] exI [of _ "[1, i]"]) simp
  next
    case l
    from enc_lit [OF l assms(1)] obtain s1 where s1: "encode_byte s byte = Inr s1"
      "output' s1 = output' s" "length (literals s1) = length (literals s)"
      "literals_size s1 = literals_size s + 1"
      "bits s1 = bits s + 2" "control s1 = 4 * control s" by blast
    have "control s1 = of_nat (fval (fs @ [0]))"
      using s1(6) assms(2) by (simp add: fval_snoc)
    with s1 show ?thesis
      by (intro exI [of _ s1] exI [of _ "[0]"]) simp
  qed
qed

lemma flush_fields:
  assumes c: "control s1 = of_nat (fval fs1)" and b: "bits s1 = 2 * length fs1"
    and f: "list_all (\<lambda>f. f < 4) fs1" and len: "4 \<le> length fs1" "length fs1 \<le> 5"
    and fl: "flush s1 = Inr s2"
  shows "\<exists>c. c \<noteq> 1 \<and> fields c = take 4 fs1 \<and>
           output' s2 = output' s1 @ c # take (literals_size s1) (literals s1) \<and>
           bits s2 = 2 * length (drop 4 fs1) \<and> control s2 = of_nat (fval (drop 4 fs1)) \<and>
           literals_size s2 = 0 \<and> literals s2 = literals s1"
proof -
  define c where "c = (ucast (drop_bit (bits s1 - 8) (control s1)) :: u8)"
  have b8: "8 \<le> bits s1" using b len by simp
  from fl b8 have c1: "c \<noteq> 1"
    by (auto simp: flush_def Let_def c_def split: if_splits)
  from fl b8 c1 have s2: "output' s2 = output' s1 @ c # take (literals_size s1) (literals s1)"
    "bits s2 = bits s1 - 8" "control s2 = control s1 AND (push_bit (bits s1 - 8) 1 - 1)"
    "literals_size s2 = 0" "literals s2 = literals s1"
    by (auto simp: flush_def Let_def c_def split: if_splits)
  have v32: "fval fs1 < 2 ^ 32"
  proof -
    have "fval fs1 < 4 ^ length fs1" using f by (rule fval_bound)
    also have "(4::nat) ^ length fs1 \<le> 4 ^ 5" using len by (intro power_increasing) simp_all
    finally show ?thesis by simp
  qed
  from len consider (four) "length fs1 = 4" | (five) "length fs1 = 5" by arith
  then show ?thesis
  proof cases
    case four
    then have m: "bits s1 - 8 = 0" using b by simp
    have "fval fs1 < 4 ^ length fs1" using f by (rule fval_bound)
    then have v: "fval fs1 < 256" using four by simp
    have "unat c = (fval fs1 div 2 ^ 0) mod 256"
      unfolding c_def m c by (rule unat_outctl [OF v32])
    then have uc: "unat c = fval fs1" using v by simp
    have cf: "codes 4 (fval fs1) = fs1" using codes_fval [OF f] by (simp only: four)
    have "fields c = fs1" by (simp only: fields_def uc cf)
    then have fc: "fields c = take 4 fs1" using four by simp
    have "control s2 = of_nat (fval (drop 4 fs1))" using s2(3) m four by (simp add: fval_def)
    with c1 fc s2 four m show ?thesis by (intro exI [of _ c]) simp
  next
    case five
    then have m: "bits s1 - 8 = 2" using b by simp
    from five obtain fs' e where fs1: "fs1 = fs' @ [e]" and l4: "length fs' = 4"
      by (cases fs1 rule: rev_cases) auto
    have f': "list_all (\<lambda>f. f < 4) fs'" and e: "e < 4" using f fs1 by simp_all
    have val: "fval fs1 = 4 * fval fs' + e" by (simp add: fs1 fval_snoc)
    have "fval fs' < 4 ^ length fs'" using f' by (rule fval_bound)
    then have v: "fval fs' < 256" using l4 by simp
    have "unat c = (fval fs1 div 2 ^ 2) mod 256"
      unfolding c_def m c by (rule unat_outctl [OF v32])
    then have uc: "unat c = fval fs'" using v e val by simp
    have cf: "codes 4 (fval fs') = fs'" using codes_fval [OF f'] by (simp only: l4)
    have "fields c = fs'" by (simp only: fields_def uc cf)
    then have fc: "fields c = take 4 fs1" using l4 fs1 by simp
    have "control s2 = of_nat (fval fs1) AND 3" using s2(3) m c by simp
    also have "\<dots> = of_nat (fval fs1 mod 4)" by (rule of_nat_and_3)
    also have "fval fs1 mod 4 = e" using val e by simp
    finally have "control s2 = of_nat (fval (drop 4 fs1))"
      using fs1 l4 by (simp add: fval_single)
    with c1 fc s2 five m show ?thesis by (intro exI [of _ c]) simp
  qed
qed

lemma frame_body:
  assumes inv: "frame_inv s" and b6: "bits s \<le> 6" and ls: "literals_size s < 8"
    and len: "length (literals s) = 8" and body: "body s byte = Inr s'"
  shows "frame_inv s'"
proof -
  from inv obtain recs cin fs where recs: "output' s = record_stream recs"
    "frame_carry False recs = Some cin" and fs: "2 * length fs = bits s"
    "list_all (\<lambda>f. f < 4) fs" "control s = of_nat (fval fs)"
    "literal_count cin fs = (literals_size s, False)"
    by (auto simp: frame_inv_def)
  from encode_fields [OF ls fs(3), of byte] obtain s1 new where
    e: "encode_byte s byte = Inr s1" and s1: "output' s1 = output' s"
      "length (literals s1) = length (literals s)"
      "control s1 = of_nat (fval (fs @ new))" "bits s1 = bits s + 2 * length new"
      "list_all (\<lambda>f. f < 4) new" and shape: "length new = 1 \<or> (\<exists>i. new = [1, i])"
    and cnt: "snd (literal_count False new) = False"
      "literals_size s1 = literals_size s + fst (literal_count False new)"
    by blast
  define fs1 where "fs1 = fs @ new"
  have c1': "control s1 = of_nat (fval fs1)" using s1(3) by (simp only: fs1_def)
  have fl: "flush s1 = Inr s'" using body e by (simp add: body_def)
  have lc1: "literal_count cin fs1 = (literals_size s1, False)"
    using fs(4) cnt by (simp add: literal_count_append fs1_def)
  have b1: "bits s1 = 2 * length fs1" using s1(4) fs(1) by (simp add: fs1_def)
  have all1: "list_all (\<lambda>f. f < 4) fs1" using fs(2) s1(5) by (simp add: fs1_def)
  have lsz: "literals_size s1 \<le> length (literals s1)"
  proof -
    have "fst (literal_count False new) \<le> 1"
    proof -
      from shape consider f where "new = [f]" | i where "new = [1, i]"
        by (cases new) auto
      then show ?thesis by cases simp_all
    qed
    then show ?thesis using cnt(2) ls len s1(2) by simp
  qed
  show ?thesis
  proof (cases "bits s1 < 8")
    case True
    then have eq: "s' = s1" using fl by (simp add: flush_small)
    have "output' s1 = record_stream recs \<and> frame_carry False recs = Some cin \<and>
        2 * length fs1 = bits s1 \<and> list_all (\<lambda>f. f < 4) fs1 \<and>
        control s1 = of_nat (fval fs1) \<and> literal_count cin fs1 = (literals_size s1, False)"
      using recs s1(1) c1' b1 all1 lc1 by simp
    then show ?thesis unfolding frame_inv_def eq by blast
  next
    case False
    then have l4: "4 \<le> length fs1" using b1 by simp
    have l5: "length fs1 \<le> 5" using fs(1) b6 shape by (auto simp: fs1_def)
    from flush_fields [OF c1' b1 all1 l4 l5 fl] obtain c where c: "c \<noteq> 1"
      "fields c = take 4 fs1"
      "output' s' = output' s1 @ c # take (literals_size s1) (literals s1)"
      "bits s' = 2 * length (drop 4 fs1)" "control s' = of_nat (fval (drop 4 fs1))"
      "literals_size s' = 0"
      by blast
    let ?n1 = "fst (literal_count cin (take 4 fs1))"
    let ?c1 = "snd (literal_count cin (take 4 fs1))"
    have split: "literal_count cin fs1 =
        (?n1 + fst (literal_count ?c1 (drop 4 fs1)), snd (literal_count ?c1 (drop 4 fs1)))"
      using literal_count_append [of cin "take 4 fs1" "drop 4 fs1"] by simp
    have rest: "literal_count ?c1 (drop 4 fs1) = (0, False)"
    proof (cases "length fs1 = 4")
      case True
      then have d: "drop 4 fs1 = []" by simp
      have "snd (literal_count ?c1 (drop 4 fs1)) = False" using split lc1 by simp
      then show ?thesis using d by simp
    next
      case False
      then have five: "length fs1 = 5" using l4 l5 by arith
      have l3: "length fs \<le> 3" using fs(1) b6 by simp
      from five l3 shape obtain i where new: "new = [1, i]" and fs3: "length fs = 3"
        by (auto simp: fs1_def)
      have t: "take 4 fs1 = fs @ [1]" and d: "drop 4 fs1 = [i]"
        using new fs3 by (simp_all add: fs1_def)
      have "literal_count cin (fs @ [1]) = (literals_size s, True)"
        using fs(4) by (simp add: literal_count_append)
      then show ?thesis by (simp add: t d)
    qed
    have n1: "?n1 = literals_size s1" using split lc1 rest by simp
    let ?r = "(c, take (literals_size s1) (literals s1))"
    have "frame_carry cin [?r] = Some ?c1"
      using c(1,2) n1 lsz by simp
    then have fr: "frame_carry False (recs @ [?r]) = Some ?c1"
      using recs(2) by (simp add: frame_carry_snoc)
    have out: "output' s' = record_stream (recs @ [?r])"
      using c(3) s1(1) recs(1) by (simp add: record_stream_snoc)
    have all': "list_all (\<lambda>f. f < 4) (drop 4 fs1)"
      using all1 by (simp add: list_all_iff) (meson in_set_dropD)
    have "output' s' = record_stream (recs @ [?r]) \<and>
        frame_carry False (recs @ [?r]) = Some ?c1 \<and>
        2 * length (drop 4 fs1) = bits s' \<and> list_all (\<lambda>f. f < 4) (drop 4 fs1) \<and>
        control s' = of_nat (fval (drop 4 fs1)) \<and>
        literal_count ?c1 (drop 4 fs1) = (literals_size s', False)"
      using out fr c(4,5,6) all' rest by simp
    then show ?thesis unfolding frame_inv_def by blast
  qed
qed

lemma frame_inv_init: "frame_inv init_state"
proof -
  have "output' init_state = record_stream [] \<and> frame_carry False [] = Some False \<and>
      2 * length ([]::nat list) = bits init_state \<and> list_all (\<lambda>f. f < 4) ([]::nat list) \<and>
      control init_state = of_nat (fval []) \<and>
      literal_count False [] = (literals_size init_state, False)"
    by (simp add: init_state_def record_stream_def fval_def)
  then show ?thesis unfolding frame_inv_def by blast
qed

lemma frame_inv_pos: "frame_inv s \<Longrightarrow> frame_inv (s\<lparr>pos := p\<rparr>)"
  by (simp add: frame_inv_def)

lemma frame_inv_end:
  assumes "frame_inv s" "bits s = 0"
  shows "\<exists>recs. output' s = record_stream recs \<and> frame_carry False recs = Some False"
proof -
  from assms obtain recs cin fs where r: "output' s = record_stream recs"
    "frame_carry False recs = Some cin" "2 * length fs = 0"
    "literal_count cin fs = (literals_size s, False)"
    by (auto simp: frame_inv_def)
  then have "fs = []" by simp
  with r(4) have "cin = False" by simp
  with r show ?thesis by blast
qed

lemma last_but_one:
  assumes "out = record_stream recs @ [e]" "recs \<noteq> []"
  shows "out ! (length out - 2) = last (fst (last recs) # snd (last recs))"
proof -
  from assms(2) obtain front c ls where recs: "recs = front @ [(c, ls)]"
    by (cases recs rule: rev_cases) auto
  have "out = (record_stream front @ butlast (c # ls)) @ [last (c # ls), e]"
    unfolding assms(1) recs record_stream_snoc by (simp del: butlast.simps last.simps)
  then have "out ! (length out - 2) = last (c # ls)"
    by (simp add: nth_append del: butlast.simps last.simps)
  then show ?thesis by (simp add: recs)
qed

subsection \<open>One pass through the body keeps the invariant\<close>

lemma body_inv:
  assumes inv: "loop_inv size' s"
  shows "body s byte = Inl AssertOutctl \<or>
         (\<exists>s'. body s byte = Inr s' \<and> pos s' = pos s \<and> prev1 s' = ucast byte \<and>
            loop_inv size' s' \<and>
            (ucast byte = prev1 s \<longrightarrow> bits s' = (bits s + 2) mod 8))"
proof -
  from inv have ls: "literals_size s < 8" and len: "length (literals s) = 8"
    and b: "bits s \<in> {0, 2, 4, 6}" and l2: "2 * literals_size s \<le> bits s"
    and p: "pos s \<le> size'" and fr: "frame_inv s"
    by (auto simp: loop_inv_def)
  from b have b6: "bits s \<le> 6" by auto
  have frame: "frame_inv s'" if "body s byte = Inr s'" for s'
    using fr b6 ls len that by (rule frame_body)
  from encode_byte_cases [OF ls, of byte] obtain s1 where
    e: "encode_byte s byte = Inr s1" and s1: "pos s1 = pos s" "output' s1 = output' s"
      "prev1 s1 = ucast byte" "length (literals s1) = 8" and
    c: "(bits s1 = bits s + 2 \<and> literals_size s1 = literals_size s) \<or>
        (bits s1 = bits s + 4 \<and> literals_size s1 = literals_size s) \<or>
        (bits s1 = bits s + 2 \<and> literals_size s1 = literals_size s + 1)"
    using len by auto
  from c b l2 have b1: "bits s1 \<in> {2, 4, 6, 8, 10}" and l1: "2 * literals_size s1 \<le> bits s1"
    by auto
  have rep: "ucast byte = prev1 s \<Longrightarrow> bits s1 = bits s + 2"
    using encode_byte_repeat [of byte s] e by auto
  show ?thesis
  proof (cases "8 \<le> bits s1")
    case False
    then have f: "flush s1 = Inr s1" by (simp add: flush_small)
    then have bd: "body s byte = Inr s1" using e by (simp add: body_def)
    have "loop_inv size' s1"
      using False b1 l1 s1 p frame [OF bd] by (auto simp: loop_inv_def)
    moreover have "ucast byte = prev1 s \<longrightarrow> bits s1 = (bits s + 2) mod 8"
      using rep False by auto
    ultimately show ?thesis using bd s1 by simp
  next
    case True
    from flush_big [OF True] show ?thesis
    proof
      assume "flush s1 = Inl AssertOutctl"
      then show ?thesis using e by (simp add: body_def)
    next
      assume "\<exists>s2 c. flush s1 = Inr s2 \<and> c \<noteq> 1 \<and> pos s2 = pos s1 \<and> prev0 s2 = prev0 s1 \<and>
            prev1 s2 = prev1 s1 \<and> literals s2 = literals s1 \<and> literals_size s2 = 0 \<and>
            bits s2 = bits s1 - 8 \<and>
            output' s2 = output' s1 @ c # take (literals_size s1) (literals s1)"
      then obtain s2 where f: "flush s1 = Inr s2" and
        s2: "pos s2 = pos s1" "prev1 s2 = prev1 s1" "literals s2 = literals s1"
          "literals_size s2 = 0" "bits s2 = bits s1 - 8"
        by blast
      have bd: "body s byte = Inr s2" using e f by (simp add: body_def)
      have "loop_inv size' s2"
        using s2 s1 b1 True p frame [OF bd] by (auto simp: loop_inv_def)
      moreover have "ucast byte = prev1 s \<longrightarrow> bits s2 = (bits s + 2) mod 8"
        using rep True b s2 by auto
      ultimately show ?thesis using bd s1 s2 by simp
    qed
  qed
qed

lemma loop_break: "pos s = size' \<Longrightarrow> bits s = 0 \<Longrightarrow> loop source size' s = Some (Inr s)"
  by (subst loop.simps) (simp add: iteration_def)

lemma loop_pad:
  "pos s = size' \<Longrightarrow> bits s \<noteq> 0 \<Longrightarrow>
   loop source size' s =
     (case body s 0 of Inl e \<Rightarrow> Some (Inl e) | Inr s' \<Rightarrow> loop source size' s')"
  by (subst loop.simps) (simp add: iteration_def)

lemma loop_read:
  "pos s \<noteq> size' \<Longrightarrow>
   loop source size' s =
     (case body (s\<lparr>pos := pos s + 1\<rparr>) (source ! pos s) of
        Inl e \<Rightarrow> Some (Inl e) | Inr s' \<Rightarrow> loop source size' s')"
  by (subst loop.simps) (simp add: iteration_def)

lemma loop_tail:
  assumes "loop_inv size' s" "pos s = size'" "prev1 s = 0"
  shows "\<exists>r. loop source size' s = Some r \<and> loop_post size' r"
  using assms
proof (induction "(8 - bits s) mod 8" arbitrary: s rule: less_induct)
  case less
  show ?case
  proof (cases "bits s = 0")
    case True
    with less.prems show ?thesis by (simp add: loop_break loop_post_def)
  next
    case False
    from body_inv [OF less.prems(1), of 0] show ?thesis
    proof
      assume "body s 0 = Inl AssertOutctl"
      then show ?thesis using False less.prems by (simp add: loop_pad loop_post_def)
    next
      assume "\<exists>s'. body s 0 = Inr s' \<and> pos s' = pos s \<and> prev1 s' = ucast (0::u8) \<and>
            loop_inv size' s' \<and> (ucast (0::u8) = prev1 s \<longrightarrow> bits s' = (bits s + 2) mod 8)"
      then obtain s' where b: "body s 0 = Inr s'" and s': "pos s' = pos s" "prev1 s' = 0"
        "loop_inv size' s'" "bits s' = (bits s + 2) mod 8"
        using less.prems by auto
      have "bits s \<in> {2, 4, 6}" using less.prems False by (auto simp: loop_inv_def)
      then have "(8 - bits s') mod 8 < (8 - bits s) mod 8" using s' by auto
      from less.hyps [OF this s'(3)] s' less.prems
      obtain r where "loop source size' s' = Some r" "loop_post size' r" by auto
      then show ?thesis using b False less.prems by (simp add: loop_pad)
    qed
  qed
qed

lemma loop_end:
  assumes "loop_inv size' s" "pos s = size'"
  shows "\<exists>r. loop source size' s = Some r \<and> loop_post size' r"
proof (cases "bits s = 0")
  case True
  with assms show ?thesis by (simp add: loop_break loop_post_def)
next
  case False
  from body_inv [OF assms(1), of 0] show ?thesis
  proof
    assume "body s 0 = Inl AssertOutctl"
    then show ?thesis using False assms by (simp add: loop_pad loop_post_def)
  next
    assume "\<exists>s'. body s 0 = Inr s' \<and> pos s' = pos s \<and> prev1 s' = ucast (0::u8) \<and>
          loop_inv size' s' \<and> (ucast (0::u8) = prev1 s \<longrightarrow> bits s' = (bits s + 2) mod 8)"
    then obtain s' where b: "body s 0 = Inr s'" and s': "pos s' = size'" "prev1 s' = 0"
      "loop_inv size' s'"
      using assms by auto
    from loop_tail [OF s'(3) s'(1) s'(2)]
    obtain r where "loop source size' s' = Some r" "loop_post size' r" by auto
    then show ?thesis using b False assms by (simp add: loop_pad)
  qed
qed

lemma loop_inv_pos:
  "loop_inv size' s \<Longrightarrow> pos s \<noteq> size' \<Longrightarrow> loop_inv size' (s\<lparr>pos := pos s + 1\<rparr>)"
  by (auto simp: loop_inv_def intro: frame_inv_pos)

lemma loop_total:
  assumes "loop_inv size' s"
  shows "\<exists>r. loop source size' s = Some r \<and> loop_post size' r"
  using assms
proof (induction "size' - pos s" arbitrary: s rule: less_induct)
  case less
  show ?case
  proof (cases "pos s = size'")
    case True
    with less.prems show ?thesis by (simp add: loop_end)
  next
    case False
    let ?s = "s\<lparr>pos := pos s + 1\<rparr>"
    have inv: "loop_inv size' ?s" using less.prems False by (rule loop_inv_pos)
    from body_inv [OF inv, of "source ! pos s"] show ?thesis
    proof
      assume "body ?s (source ! pos s) = Inl AssertOutctl"
      then show ?thesis using False by (simp add: loop_read loop_post_def)
    next
      assume "\<exists>s'. body ?s (source ! pos s) = Inr s' \<and> pos s' = pos ?s \<and>
            prev1 s' = ucast (source ! pos s) \<and> loop_inv size' s' \<and>
            (ucast (source ! pos s) = prev1 ?s \<longrightarrow> bits s' = (bits ?s + 2) mod 8)"
      then obtain s' where b: "body ?s (source ! pos s) = Inr s'" and
        s': "pos s' = pos s + 1" "loop_inv size' s'"
        by auto
      have "pos s < size'" using less.prems False by (auto simp: loop_inv_def)
      then have "size' - pos s' < size' - pos s" using s' by simp
      from less.hyps [OF this s'(2)]
      obtain r where "loop source size' s' = Some r" "loop_post size' r" by auto
      then show ?thesis using b False by (simp add: loop_read)
    qed
  qed
qed

lemma loop_inv_init: "loop_inv size' init_state"
  using frame_inv_init by (simp add: loop_inv_def init_state_def)

lemma pb12_main_total:
  "\<exists>r. pb12_main input = Some r"
proof -
  obtain r where "loop (fread_source input) (trim (fread_source input) (length (fread_source input))) init_state = Some r"
    using loop_total [OF loop_inv_init] by blast
  then show ?thesis
    by (cases r) (simp_all add: pb12_main_def Let_def)
qed

subsection \<open>The loop, the trimmer and \<^verbatim>\<open>main\<close>\<close>

lemma iteration_inv:
  assumes "loop_inv size' s"
  shows "case iteration source size' s of
           None \<Rightarrow> True
         | Some (Inl e) \<Rightarrow> e = AssertOutctl
         | Some (Inr s') \<Rightarrow> loop_inv size' s'"
proof (cases "pos s = size'")
  case True
  then show ?thesis
    using body_inv [OF assms, of 0] by (auto simp: iteration_def)
next
  case False
  then show ?thesis
    using body_inv [OF loop_inv_pos [OF assms False], of "source ! pos s"]
    by (auto simp: iteration_def)
qed

lemma iterations_inv:
  "loop_inv size' s \<Longrightarrow>
   (case iterations source size' n s of
      Inl e \<Rightarrow> e = AssertOutctl
    | Inr s' \<Rightarrow> loop_inv size' s')"
proof (induction n arbitrary: s)
  case 0
  then show ?case by simp
next
  case (Suc n)
  show ?case
  proof (cases "iteration source size' s")
    case None
    then show ?thesis using Suc.prems by simp
  next
    case (Some r)
    show ?thesis
    proof (cases r)
      case (Inl e)
      with Some iteration_inv [OF Suc.prems, of source] show ?thesis by simp
    next
      case (Inr s1)
      with Some iteration_inv [OF Suc.prems, of source] have "loop_inv size' s1" by simp
      from Suc.IH [OF this] show ?thesis using Some Inr by simp
    qed
  qed
qed

lemma iterations_loop:
  "iterations source size' n s = Inr s' \<Longrightarrow> loop source size' s = loop source size' s'"
proof (induction n arbitrary: s)
  case 0
  then show ?case by simp
next
  case (Suc n)
  show ?case
  proof (cases "iteration source size' s")
    case None
    then show ?thesis using Suc.prems by simp
  next
    case (Some r)
    show ?thesis
    proof (cases r)
      case (Inl e)
      with Some Suc.prems show ?thesis by simp
    next
      case (Inr s1)
      with Some Suc.prems have "iterations source size' n s1 = Inr s'" by simp
      then have "loop source size' s1 = loop source size' s'" by (rule Suc.IH)
      moreover have "loop source size' s = loop source size' s1"
        using Some Inr by (subst loop.simps) simp
      ultimately show ?thesis by simp
    qed
  qed
qed

lemma trim_le: "trim source size' \<le> size'"
  by (induction source size' rule: trim.induct) (subst trim.simps, auto)

lemma trim_fix: "size' = 0 \<or> source ! (size' - 1) \<noteq> 0 \<Longrightarrow> trim source size' = size'"
  by (subst trim.simps) auto

lemma trim_result: "trim source size' = 0 \<or> source ! (trim source size' - 1) \<noteq> 0"
  by (induction source size' rule: trim.induct) (subst (1 2) trim.simps, auto)

lemma trim_trim: "trim source (trim source size') = trim source size'"
  using trim_result [of source size'] by (rule trim_fix)

lemma trim_take: "size' \<le> k \<Longrightarrow> k \<le> length source \<Longrightarrow> trim (take k source) size' = trim source size'"
proof (induction source size' rule: trim.induct)
  case (1 source size')
  show ?case
  proof (cases "size' \<noteq> 0 \<and> source ! (size' - 1) = 0")
    case True
    then have "size' - 1 < k" using 1(2) by auto
    then have "take k source ! (size' - 1) = source ! (size' - 1)" by (rule nth_take)
    with True have "take k source ! (size' - 1) = 0" by simp
    with True 1 show ?thesis
      by (subst (1 2) trim.simps) simp
  next
    case False
    then have "size' = 0 \<or> take k source ! (size' - 1) \<noteq> 0" using 1(2) by (cases size') auto
    with False show ?thesis by (simp add: trim_fix)
  qed
qed

lemma trim_zeros: "(\<forall>i < size'. source ! i = 0) \<Longrightarrow> trim source size' = 0"
proof (induction size')
  case 0
  then show ?case by (simp add: trim_fix)
next
  case (Suc n)
  then show ?case by (subst trim.simps) simp
qed

lemma trimmed_trimmed: "trimmed (trimmed xs) = trimmed xs"
proof -
  let ?k = "trim xs (length xs)"
  have k: "?k \<le> length xs" by (rule trim_le)
  then have len: "length (take ?k xs) = ?k" by simp
  have "trim (take ?k xs) ?k = trim xs ?k" using k by (simp add: trim_take)
  also have "\<dots> = ?k" by (rule trim_trim)
  finally have "trim (take ?k xs) (length (take ?k xs)) = ?k" by (simp only: len)
  then have "trimmed (take ?k xs) = take ?k (take ?k xs)" by (simp only: trimmed_def)
  then show ?thesis by (simp add: trimmed_def)
qed

lemma trimmed_id: "xs = [] \<or> last xs \<noteq> 0 \<Longrightarrow> trimmed xs = xs"
proof -
  assume a: "xs = [] \<or> last xs \<noteq> 0"
  have "length xs = 0 \<or> xs ! (length xs - 1) \<noteq> 0"
    using a by (auto simp: last_conv_nth)
  then have "trim xs (length xs) = length xs" by (rule trim_fix)
  then show ?thesis by (simp add: trimmed_def)
qed

lemma zeros_main:
  assumes "\<forall>b \<in> set input. b = 0"
  shows "trim (fread_source input) (length (fread_source input)) = 0 \<and>
         pb12_main input = Some (Inr [1])"
proof -
  have "\<forall>i<length (fread_source input). fread_source input ! i = 0"
    using assms by (auto simp: fread_source_def dest: in_set_takeD)
  then have t: "trim (fread_source input) (length (fread_source input)) = 0"
    by (rule trim_zeros)
  have "loop (fread_source input) 0 init_state = Some (Inr init_state)"
    by (rule loop_break) (simp_all add: init_state_def)
  with t show ?thesis
    by (simp add: pb12_main_def Let_def fread_source_def init_state_def)
qed

lemma pb12_main_prefix: "pb12_main input = pb12_main (take 0x4000 input)"
  by (simp add: pb12_main_def fread_source_def)

lemma pb12_main_no_size_abort: "pb12_main input \<noteq> Some (Inl AssertSize)"
proof -
  let ?src = "fread_source input"
  let ?n = "trim ?src (length ?src)"
  obtain r where r: "loop ?src ?n init_state = Some r" "loop_post ?n r"
    using loop_total [OF loop_inv_init] by blast
  then show ?thesis
    by (cases r) (auto simp: pb12_main_def Let_def fread_source_def loop_post_def)
qed

lemma pb12_main_framed:
  assumes "pb12_main input = Some (Inr out)"
  shows "\<exists>recs. out = record_stream recs @ [1] \<and> frame_carry False recs = Some False"
proof -
  let ?src = "fread_source input"
  let ?n = "trim ?src (length ?src)"
  obtain r where r: "loop ?src ?n init_state = Some r" "loop_post ?n r"
    using loop_total [OF loop_inv_init] by blast
  with assms obtain s where s: "r = Inr s" "out = output' s @ [1]"
    by (cases r) (auto simp: pb12_main_def Let_def fread_source_def)
  with r have "frame_inv s" "bits s = 0" by (simp_all add: loop_post_def loop_inv_def)
  then obtain recs where "output' s = record_stream recs" "frame_carry False recs = Some False"
    using frame_inv_end by blast
  then show ?thesis using s by auto
qed

lemma pb12_main_loop:
  "length input \<le> 0x4000 \<Longrightarrow>
   pb12_main input =
     (case loop input (trim input (length input)) init_state of
        None \<Rightarrow> None
      | Some (Inl e) \<Rightarrow> Some (Inl e)
      | Some (Inr s) \<Rightarrow> Some (Inr (output' s @ [1])))"
  by (simp add: pb12_main_def fread_source_def)

subsection \<open>Runs on given inputs\<close>

lemma eval_one: "pb12_main [0x01] = Some (Inr [0x17, 0x01, 0x01])"
proof -
  have t: "trim [0x01] (length [0x01 :: u8]) = 1" by (simp add: trim_fix)
  have l: "map_option (map_sum id output') (loop [0x01] 1 init_state) = Some (Inr [0x17, 0x01])"
    by code_simp
  then obtain s where "loop [0x01] 1 init_state = Some (Inr s)" "output' s = [0x17, 0x01]"
    by (cases "loop [0x01] 1 init_state") (auto simp: map_sum_def split: sum.splits)
  then show ?thesis
    by (subst pb12_main_loop) (simp_all only: t, simp_all)
qed


section \<open>The claims\<close>

text \<open>
  C8. For an input made of zero bytes only (the empty input too), the trimmer leaves
  nothing (\<^verbatim>\<open>size\<close> becomes 0) and the whole output is the single byte \<^verbatim>\<open>0x01\<close>.
\<close>

theorem all_zero_input:
  assumes "\<forall>b \<in> set input. b = 0"
  shows "trim (fread_source input) (length (fread_source input)) = 0 \<and>
         trimmed (fread_source input) = [] \<and>
         pb12_main input = Some (Inr [1])"
  using zeros_main [OF assms] by (simp add: trimmed_def)

theorem all_zero_input_witness:
  "trim (fread_source [0, 0, 0]) (length (fread_source [0, 0, 0])) = 0 \<and>
   trimmed (fread_source [0, 0, 0]) = [] \<and>
   pb12_main [0, 0, 0] = Some (Inr [1]) \<and> pb12_main [] = Some (Inr [1])"
  using all_zero_input [of "[0, 0, 0]"] all_zero_input [of "[]"] by simp

text \<open>
  C9. Trimming is idempotent: a sequence that is empty or ends in a non-zero byte is
  returned as it is, and trimming the result of a trim changes nothing. (No bound on the
  length is needed.)
\<close>

theorem trim_idempotent:
  "(xs = [] \<or> last xs \<noteq> 0 \<longrightarrow> trimmed xs = xs) \<and> trimmed (trimmed xs) = trimmed xs"
  using trimmed_id [of xs] trimmed_trimmed [of xs] by blast

theorem trim_idempotent_witness:
  "trimmed [1, 0, 2] = [1, 0, 2] \<and> trimmed (trimmed [1, 0, 2, 0, 0]) = trimmed [1, 0, 2, 0, 0]"
  using trim_idempotent [of "[1, 0, 2]"] trim_idempotent [of "[1, 0, 2, 0, 0]"] by simp

text \<open>
  C10. Throughout a pass the literal queue holds at most 4 bytes. After any number of
  passes through the loop body from the initial state, no write past the array
  \<^verbatim>\<open>literals\<close> has happened, the queue holds at most 4 bytes, and whatever byte comes next
  is classified without a write out of bounds and leaves at most 4 bytes in the queue
  before the flush.
\<close>

theorem literal_queue_bound:
  "iterations source size' n init_state \<noteq> Inl LiteralsOverflow \<and>
   (\<forall>s. iterations source size' n init_state = Inr s \<longrightarrow>
      literals_size s \<le> 4 \<and> length (literals s) = 8 \<and>
      (\<forall>byte. \<exists>s1. encode_byte s byte = Inr s1 \<and> literals_size s1 \<le> 4 \<and>
         length (literals s1) = 8))"
proof (intro conjI allI impI)
  show "iterations source size' n init_state \<noteq> Inl LiteralsOverflow"
    using iterations_inv [OF loop_inv_init, of size' source n] by (auto split: sum.splits)
next
  fix s assume "iterations source size' n init_state = Inr s"
  then have inv: "loop_inv size' s"
    using iterations_inv [OF loop_inv_init, of size' source n] by simp
  then have l: "literals_size s \<le> 3" and len: "length (literals s) = 8"
    by (auto simp: loop_inv_def)
  show "literals_size s \<le> 4" using l by simp
  show "length (literals s) = 8" by (rule len)
  fix byte
  from l have "literals_size s < 8" by simp
  from encode_byte_cases [OF this, of byte] l len
  show "\<exists>s1. encode_byte s byte = Inr s1 \<and> literals_size s1 \<le> 4 \<and> length (literals s1) = 8"
    by auto
qed

theorem literal_queue_bound_witness:
  "iterations [0x10, 0x01, 0x40, 0x02] 4 3 init_state =
     Inr \<lparr>pos = 3, literals = [0x10, 0x01, 0x40, 0, 0, 0, 0, 0], literals_size = 3, bits = 6,
          control = 0, prev0 = 0x01, prev1 = 0x40, output' = []\<rparr> \<and>
   (\<exists>s1. encode_byte \<lparr>pos = 3, literals = [0x10, 0x01, 0x40, 0, 0, 0, 0, 0], literals_size = 3,
            bits = 6, control = 0, prev0 = 0x01, prev1 = 0x40, output' = []\<rparr> 0x02 = Inr s1 \<and>
      literals_size s1 \<le> 4 \<and> length (literals s1) = 8)"
proof -
  have e: "iterations [0x10, 0x01, 0x40, 0x02] 4 3 init_state =
     Inr \<lparr>pos = 3, literals = [0x10, 0x01, 0x40, 0, 0, 0, 0, 0], literals_size = 3, bits = 6,
          control = 0, prev0 = 0x01, prev1 = 0x40, output' = []\<rparr>"
    by code_simp
  with literal_queue_bound [of "[0x10, 0x01, 0x40, 0x02]" 4 3] show ?thesis by blast
qed

text \<open>
  C3, as amended. An input longer than 16384 bytes is not rejected: \<^verbatim>\<open>fread\<close> stops at the
  size of the buffer, so \<^verbatim>\<open>assert(size <= 0x4000)\<close> holds on every run, and the run on the
  input is the run on its first 16384 bytes, with the same output or the same failure of
  the control-byte assertion.
\<close>

theorem oversized_input_truncated:
  "pb12_main input = pb12_main (take 16384 input) \<and> pb12_main input \<noteq> Some (Inl AssertSize)"
  using pb12_main_prefix [of input] pb12_main_no_size_abort [of input] by simp

theorem oversized_input_counterexample:
  "16384 < length (replicate 16384 (0::u8) @ [0xFF]) \<and>
   pb12_main (replicate 16384 0 @ [0xFF]) = Some (Inr [1])"
proof -
  have "pb12_main (replicate 16384 0 @ [0xFF]) = pb12_main (replicate 16384 0)"
    by (subst pb12_main_prefix) simp
  also have "\<dots> = Some (Inr [1])"
    using zeros_main [of "replicate 16384 0"] by simp
  finally show ?thesis by simp
qed

text \<open>
  C5, as amended. Every run ends, and when it ends without a failed assertion the output
  is a sequence of records followed by the end byte \<^verbatim>\<open>0x01\<close>, framed by its own control
  bits: every record is a control byte other than \<^verbatim>\<open>0x01\<close> followed by exactly as many
  literal bytes as the control byte has literal events, so that reading the output record
  by record meets the end byte at the last byte and nowhere before. The byte before the
  end byte is the last byte of the last record: its control byte, which is not \<^verbatim>\<open>0x01\<close>,
  when that record has no literal, and else its last literal, which can be \<^verbatim>\<open>0x01\<close>.
\<close>

theorem output_framed_then_end_byte:
  "(\<exists>r. pb12_main input = Some r) \<and>
   (\<forall>out. pb12_main input = Some (Inr out) \<longrightarrow>
      (\<exists>recs. out = record_stream recs @ [1] \<and> frame_carry False recs = Some False \<and>
         (\<forall>c ls. (c, ls) \<in> set recs \<longrightarrow> c \<noteq> 1) \<and>
         (recs \<noteq> [] \<longrightarrow>
            out ! (length out - 2) = last (fst (last recs) # snd (last recs)))))"
proof (intro conjI allI impI)
  show "\<exists>r. pb12_main input = Some r" by (rule pb12_main_total)
next
  fix out assume "pb12_main input = Some (Inr out)"
  then obtain recs where r: "out = record_stream recs @ [1]"
    "frame_carry False recs = Some False"
    using pb12_main_framed by blast
  have "\<forall>c ls. (c, ls) \<in> set recs \<longrightarrow> c \<noteq> 1"
    using frame_carry_ctl [OF r(2)] by blast
  moreover have "recs \<noteq> [] \<longrightarrow>
      out ! (length out - 2) = last (fst (last recs) # snd (last recs))"
    using last_but_one [OF r(1)] by blast
  ultimately show "\<exists>recs. out = record_stream recs @ [1] \<and>
      frame_carry False recs = Some False \<and>
      (\<forall>c ls. (c, ls) \<in> set recs \<longrightarrow> c \<noteq> 1) \<and>
      (recs \<noteq> [] \<longrightarrow> out ! (length out - 2) = last (fst (last recs) # snd (last recs)))"
    using r by blast
qed

theorem output_framed_then_end_byte_witness:
  "pb12_main [0x01] = Some (Inr [0x17, 0x01, 0x01]) \<and>
   (\<exists>recs. [0x17, 0x01, 0x01] = record_stream recs @ [1] \<and>
      frame_carry False recs = Some False \<and>
      (recs \<noteq> [] \<longrightarrow>
         [0x17, 0x01, 0x01 :: u8] ! (length [0x17, 0x01, 0x01 :: u8] - 2) =
           last (fst (last recs) # snd (last recs)))) \<and>
   fields 0x17 = [0, 1, 1, 3] \<and>
   frame_carry False [(0x17, [0x01])] = Some False \<and>
   frame_carry False [(0x17, []), (0x01, [])] = None \<and>
   record_stream [(0x17, [0x01])] @ [1] = [0x17, 0x01, 0x01]"
proof -
  have a: "fields 0x17 = [0, 1, 1, 3]" by code_simp
  have b: "frame_carry False [(0x17, [0x01])] = Some False"
    "frame_carry False [(0x17, []), (0x01, [])] = None" by code_simp+
  have c: "record_stream [(0x17, [0x01])] @ [1] = [0x17, 0x01, 0x01]"
    by (simp add: record_stream_def)
  from output_framed_then_end_byte [of "[0x01]"] eval_one
  have "\<exists>recs. [0x17, 0x01, 0x01] = record_stream recs @ [1] \<and>
      frame_carry False recs = Some False \<and>
      (\<forall>c ls. (c, ls) \<in> set recs \<longrightarrow> c \<noteq> 1) \<and>
      (recs \<noteq> [] \<longrightarrow>
         [0x17, 0x01, 0x01 :: u8] ! (length [0x17, 0x01, 0x01 :: u8] - 2) =
           last (fst (last recs) # snd (last recs)))"
    by blast
  then have "\<exists>recs. [0x17, 0x01, 0x01] = record_stream recs @ [1] \<and>
      frame_carry False recs = Some False \<and>
      (recs \<noteq> [] \<longrightarrow>
         [0x17, 0x01, 0x01 :: u8] ! (length [0x17, 0x01, 0x01 :: u8] - 2) =
           last (fst (last recs) # snd (last recs)))"
    by blast
  with eval_one a b c show ?thesis by blast
qed

theorem literal_before_end_byte_counterexample:
  "pb12_main [0x01] = Some (Inr [0x17, 0x01, 0x01])"
  by (rule eval_one)

text \<open>
  C6. A byte equal to both predictor slots gets the control bits \<open>1 1\<close>, a byte equal to
  \<^verbatim>\<open>prev[0]\<close> only gets \<open>1 0\<close>, a byte equal to \<^verbatim>\<open>prev[1]\<close> only gets \<open>1 1\<close>: two bits are
  appended to \<^verbatim>\<open>control\<close>, nothing is queued, and the slots move on.
\<close>

theorem repeat_codes:
  "(ucast byte = prev0 s \<and> ucast byte = prev1 s \<longrightarrow>
      encode_byte s byte =
        Inr (s\<lparr>bits := bits s + 2, control := push_bit 2 (control s) + 3,
               prev0 := prev1 s, prev1 := ucast byte\<rparr>)) \<and>
   (ucast byte = prev0 s \<and> ucast byte \<noteq> prev1 s \<longrightarrow>
      encode_byte s byte =
        Inr (s\<lparr>bits := bits s + 2, control := push_bit 2 (control s) + 2,
               prev0 := prev1 s, prev1 := ucast byte\<rparr>)) \<and>
   (ucast byte \<noteq> prev0 s \<and> ucast byte = prev1 s \<longrightarrow>
      encode_byte s byte =
        Inr (s\<lparr>bits := bits s + 2, control := push_bit 2 (control s) + 3,
               prev0 := prev1 s, prev1 := ucast byte\<rparr>))"
  unfolding encode_byte_def Let_def ctl_rep0 ctl_rep01
  by auto

theorem repeat_codes_witness:
  "ucast (5::u8) = prev0 (init_state\<lparr>prev0 := 5, prev1 := 5\<rparr>) \<and>
   ucast (5::u8) = prev1 (init_state\<lparr>prev0 := 5, prev1 := 5\<rparr>) \<and>
   ucast (5::u8) = prev0 (init_state\<lparr>prev0 := 5, prev1 := 6\<rparr>) \<and>
   ucast (5::u8) \<noteq> prev1 (init_state\<lparr>prev0 := 5, prev1 := 6\<rparr>) \<and>
   ucast (5::u8) \<noteq> prev0 (init_state\<lparr>prev0 := 6, prev1 := 5\<rparr>) \<and>
   ucast (5::u8) = prev1 (init_state\<lparr>prev0 := 6, prev1 := 5\<rparr>) \<and>
   (\<exists>s'. encode_byte (init_state\<lparr>prev0 := 5, prev1 := 5\<rparr>) 5 = Inr s' \<and>
      bits s' = 2 \<and> control s' = 3 \<and> literals_size s' = 0) \<and>
   (\<exists>s'. encode_byte (init_state\<lparr>prev0 := 5, prev1 := 6\<rparr>) 5 = Inr s' \<and>
      bits s' = 2 \<and> control s' = 2 \<and> literals_size s' = 0) \<and>
   (\<exists>s'. encode_byte (init_state\<lparr>prev0 := 6, prev1 := 5\<rparr>) 5 = Inr s' \<and>
      bits s' = 2 \<and> control s' = 3 \<and> literals_size s' = 0)"
proof -
  let ?a = "init_state\<lparr>prev0 := 5, prev1 := 5\<rparr>"
  let ?b = "init_state\<lparr>prev0 := 5, prev1 := 6\<rparr>"
  let ?c = "init_state\<lparr>prev0 := 6, prev1 := 5\<rparr>"
  have i: "bits init_state = 0" "control init_state = 0" "literals_size init_state = 0"
    by (simp_all add: init_state_def)
  have a: "ucast (5::u8) = prev0 ?a \<and> ucast (5::u8) = prev1 ?a" by simp
  have b: "ucast (5::u8) = prev0 ?b \<and> ucast (5::u8) \<noteq> prev1 ?b" by simp
  have c: "ucast (5::u8) \<noteq> prev0 ?c \<and> ucast (5::u8) = prev1 ?c" by simp
  from repeat_codes [of 5 ?a] a
  have "encode_byte ?a 5 = Inr (?a\<lparr>bits := bits ?a + 2, control := push_bit 2 (control ?a) + 3,
      prev0 := prev1 ?a, prev1 := ucast (5::u8)\<rparr>)" by blast
  then have ra: "\<exists>s'. encode_byte ?a 5 = Inr s' \<and> bits s' = 2 \<and> control s' = 3 \<and> literals_size s' = 0"
    by (simp add: i)
  from repeat_codes [of 5 ?b] b
  have "encode_byte ?b 5 = Inr (?b\<lparr>bits := bits ?b + 2, control := push_bit 2 (control ?b) + 2,
      prev0 := prev1 ?b, prev1 := ucast (5::u8)\<rparr>)" by blast
  then have rb: "\<exists>s'. encode_byte ?b 5 = Inr s' \<and> bits s' = 2 \<and> control s' = 2 \<and> literals_size s' = 0"
    by (simp add: i)
  from repeat_codes [of 5 ?c] c
  have "encode_byte ?c 5 = Inr (?c\<lparr>bits := bits ?c + 2, control := push_bit 2 (control ?c) + 3,
      prev0 := prev1 ?c, prev1 := ucast (5::u8)\<rparr>)" by blast
  then have rc: "\<exists>s'. encode_byte ?c 5 = Inr s' \<and> bits s' = 2 \<and> control s' = 3 \<and> literals_size s' = 0"
    by (simp add: i)
  from a b c ra rb rc show ?thesis by blast
qed

text \<open>
  C7. A byte that differs from both predictor slots and equals the first option
  \<^verbatim>\<open>prev1 | ((prev1 << 1) & 0xFF)\<close> of the byte held in \<^verbatim>\<open>prev[1]\<close> gets the four control
  bits \<open>0 1 0 0\<close> (predicted transform, index 0) and queues no literal.
\<close>

theorem predicted_first_option:
  assumes "ucast byte \<noteq> prev0 s" and "ucast byte \<noteq> prev1 s"
    and "byte = ucast (prev1 s) OR (push_bit 1 (ucast (prev1 s)) AND 0xff)"
  shows "encode_byte s byte =
           Inr (s\<lparr>bits := bits s + 4, control := push_bit 4 (control s) + 4,
                  prev0 := prev1 s, prev1 := ucast byte\<rparr>)"
proof -
  have "opts (ucast (prev1 s)) ! 0 = byte" using assms(3) by (simp only: opts0)
  then have f: "find_option (opts (ucast (prev1 s))) byte 0 = Some 0"
    by (subst find_option.simps) simp
  show ?thesis
    unfolding encode_byte_def Let_def f option.case ctl_pred0
    using assms(1,2) by simp
qed

theorem predicted_first_option_witness:
  "ucast (0xC0::u8) \<noteq> prev0 (init_state\<lparr>prev0 := 0x10, prev1 := 0x40\<rparr>) \<and>
   ucast (0xC0::u8) \<noteq> prev1 (init_state\<lparr>prev0 := 0x10, prev1 := 0x40\<rparr>) \<and>
   (\<exists>s'. encode_byte (init_state\<lparr>prev0 := 0x10, prev1 := 0x40\<rparr>) 0xC0 = Inr s' \<and>
      bits s' = 4 \<and> control s' = 4 \<and> literals_size s' = 0 \<and> prev0 s' = 0x40 \<and> prev1 s' = 0xC0)"
proof -
  let ?s = "init_state\<lparr>prev0 := 0x10, prev1 := 0x40\<rparr>"
  have i: "bits init_state = 0" "control init_state = 0" "literals_size init_state = 0"
    by (simp_all add: init_state_def)
  have h1: "ucast (0xC0::u8) \<noteq> prev0 ?s" by simp
  have h2: "ucast (0xC0::u8) \<noteq> prev1 ?s" by simp
  have h3: "(0xC0::u8) = ucast (prev1 ?s) OR (push_bit 1 (ucast (prev1 ?s)) AND 0xff)" by simp
  have "\<exists>s'. encode_byte ?s 0xC0 = Inr s' \<and>
      bits s' = 4 \<and> control s' = 4 \<and> literals_size s' = 0 \<and> prev0 s' = 0x40 \<and> prev1 s' = 0xC0"
    unfolding predicted_first_option [OF h1 h2 h3] by (simp add: i)
  with h1 h2 show ?thesis by blast
qed

text \<open>
  C1 fails on the code: on the input \<^verbatim>\<open>10 01 40 C0\<close> the first three bytes are literals
  (six control bits \<open>0\<close>) and the fourth is a predicted transform of the third, so ten
  bits \<open>00 00 00 01 00\<close> are pending, the flushed control byte is \<^verbatim>\<open>0x01\<close> and
  \<^verbatim>\<open>assert(outctl != 1)\<close> fails.
\<close>

theorem control_byte_assertion_fires:
  "iterations [0x10, 0x01, 0x40, 0xC0] 4 3 init_state =
     Inr \<lparr>pos = 3, literals = [0x10, 0x01, 0x40, 0, 0, 0, 0, 0], literals_size = 3, bits = 6,
          control = 0, prev0 = 0x01, prev1 = 0x40, output' = []\<rparr> \<and>
   encode_byte \<lparr>pos = 4, literals = [0x10, 0x01, 0x40, 0, 0, 0, 0, 0], literals_size = 3,
          bits = 6, control = 0, prev0 = 0x01, prev1 = 0x40, output' = []\<rparr> 0xC0 =
     Inr \<lparr>pos = 4, literals = [0x10, 0x01, 0x40, 0, 0, 0, 0, 0], literals_size = 3,
          bits = 10, control = 4, prev0 = 0x40, prev1 = 0xC0, output' = []\<rparr> \<and>
   flush \<lparr>pos = 4, literals = [0x10, 0x01, 0x40, 0, 0, 0, 0, 0], literals_size = 3,
          bits = 10, control = 4, prev0 = 0x40, prev1 = 0xC0, output' = []\<rparr> =
     Inl AssertOutctl \<and>
   pb12_main [0x10, 0x01, 0x40, 0xC0] = Some (Inl AssertOutctl)"
proof -
  have t: "trim [0x10, 0x01, 0x40, 0xC0] (length [0x10, 0x01, 0x40, 0xC0 :: u8]) = 4"
    by (simp add: trim_fix)
  have l: "loop [0x10, 0x01, 0x40, 0xC0] 4 init_state = Some (Inl AssertOutctl)"
    by code_simp
  have m: "pb12_main [0x10, 0x01, 0x40, 0xC0] = Some (Inl AssertOutctl)"
    by (subst pb12_main_loop) (simp_all only: t l, simp_all)
  have i: "iterations [0x10, 0x01, 0x40, 0xC0] 4 3 init_state =
     Inr \<lparr>pos = 3, literals = [0x10, 0x01, 0x40, 0, 0, 0, 0, 0], literals_size = 3, bits = 6,
          control = 0, prev0 = 0x01, prev1 = 0x40, output' = []\<rparr>"
    by code_simp
  have e: "encode_byte \<lparr>pos = 4, literals = [0x10, 0x01, 0x40, 0, 0, 0, 0, 0], literals_size = 3,
          bits = 6, control = 0, prev0 = 0x01, prev1 = 0x40, output' = []\<rparr> 0xC0 =
     Inr \<lparr>pos = 4, literals = [0x10, 0x01, 0x40, 0, 0, 0, 0, 0], literals_size = 3,
          bits = 10, control = 4, prev0 = 0x40, prev1 = 0xC0, output' = []\<rparr>"
    by code_simp
  have f: "flush \<lparr>pos = 4, literals = [0x10, 0x01, 0x40, 0, 0, 0, 0, 0], literals_size = 3,
          bits = 10, control = 4, prev0 = 0x40, prev1 = 0xC0, output' = []\<rparr> =
     Inl AssertOutctl"
    by code_simp
  from i e f m show ?thesis by (intro conjI)
qed

text \<open>
  C4 fails on the code, by the same defect as C1: on the input \<^verbatim>\<open>10 40 01\<close> the three bytes
  are literals, the input is exhausted with six bits pending, and the first implicit zero
  byte is a predicted transform (index 1) of \<^verbatim>\<open>0x01\<close>. The flushed control byte is \<^verbatim>\<open>0x01\<close>,
  the assertion fails, the bit count never reaches zero and no end byte is written.
\<close>

theorem tail_assertion_fires:
  "iterations [0x10, 0x40, 0x01] 3 3 init_state =
     Inr \<lparr>pos = 3, literals = [0x10, 0x40, 0x01, 0, 0, 0, 0, 0], literals_size = 3, bits = 6,
          control = 0, prev0 = 0x40, prev1 = 0x01, output' = []\<rparr> \<and>
   iteration [0x10, 0x40, 0x01] 3
     \<lparr>pos = 3, literals = [0x10, 0x40, 0x01, 0, 0, 0, 0, 0], literals_size = 3, bits = 6,
      control = 0, prev0 = 0x40, prev1 = 0x01, output' = []\<rparr> = Some (Inl AssertOutctl) \<and>
   pb12_main [0x10, 0x40, 0x01] = Some (Inl AssertOutctl)"
proof -
  have t: "trim [0x10, 0x40, 0x01] (length [0x10, 0x40, 0x01 :: u8]) = 3"
    by (simp add: trim_fix)
  have l: "loop [0x10, 0x40, 0x01] 3 init_state = Some (Inl AssertOutctl)"
    by code_simp
  have m: "pb12_main [0x10, 0x40, 0x01] = Some (Inl AssertOutctl)"
    by (subst pb12_main_loop) (simp_all only: t l, simp_all)
  have i: "iterations [0x10, 0x40, 0x01] 3 3 init_state =
     Inr \<lparr>pos = 3, literals = [0x10, 0x40, 0x01, 0, 0, 0, 0, 0], literals_size = 3, bits = 6,
          control = 0, prev0 = 0x40, prev1 = 0x01, output' = []\<rparr>"
    by code_simp
  have j: "iteration [0x10, 0x40, 0x01] 3
     \<lparr>pos = 3, literals = [0x10, 0x40, 0x01, 0, 0, 0, 0, 0], literals_size = 3, bits = 6,
      control = 0, prev0 = 0x40, prev1 = 0x01, output' = []\<rparr> = Some (Inl AssertOutctl)"
    by code_simp
  from i j m show ?thesis by (intro conjI)
qed

text \<open>
  C2 fails on the code. The comparison \<^verbatim>\<open>byte == prev[1]\<close> never holds while the slot is
  the unset value \<^verbatim>\<open>0xFFFFFFFF\<close>, but the call \<^verbatim>\<open>opts(prev[1], options)\<close> truncates that value
  to \<^verbatim>\<open>0xFF\<close>, whose first option is \<^verbatim>\<open>0xFF\<close>: the first byte \<^verbatim>\<open>0xFF\<close> of an input is encoded
  as a predicted transform with index 0 and no literal is queued. The output for the
  one-byte input \<^verbatim>\<open>FF\<close> is \<^verbatim>\<open>43 00 01\<close>, which does not contain the literal \<^verbatim>\<open>FF\<close>.
\<close>

theorem sentinel_byte_predicted_match:
  "ucast (0xFF :: u8) \<noteq> prev0 init_state \<and> ucast (0xFF :: u8) \<noteq> prev1 init_state \<and>
   opts (ucast (prev1 init_state)) = [0xFF, 0xFE, 0xFF, 0x7F] \<and>
   find_option (opts (ucast (prev1 init_state))) 0xFF 0 = Some 0 \<and>
   encode_byte init_state 0xFF =
     Inr \<lparr>pos = 0, literals = [0, 0, 0, 0, 0, 0, 0, 0], literals_size = 0, bits = 4,
          control = 4, prev0 = - 1, prev1 = 0xFF, output' = []\<rparr> \<and>
   pb12_main [0xFF] = Some (Inr [0x43, 0x00, 0x01])"
proof -
  have t: "trim [0xFF] (length [0xFF :: u8]) = 1" by (simp add: trim_fix)
  have l: "map_option (map_sum id output') (loop [0xFF] 1 init_state) = Some (Inr [0x43, 0x00])"
    by code_simp
  then obtain s where "loop [0xFF] 1 init_state = Some (Inr s)" "output' s = [0x43, 0x00]"
    by (cases "loop [0xFF] 1 init_state") (auto simp: map_sum_def split: sum.splits)
  then have m: "pb12_main [0xFF] = Some (Inr [0x43, 0x00, 0x01])"
    by (subst pb12_main_loop) (simp_all only: t, simp_all)
  have e: "encode_byte init_state 0xFF =
     Inr \<lparr>pos = 0, literals = [0, 0, 0, 0, 0, 0, 0, 0], literals_size = 0, bits = 4,
          control = 4, prev0 = - 1, prev1 = 0xFF, output' = []\<rparr>"
    by code_simp
  have p0: "ucast (0xFF :: u8) \<noteq> prev0 init_state" by code_simp
  have p1: "ucast (0xFF :: u8) \<noteq> prev1 init_state" by code_simp
  have o: "opts (ucast (prev1 init_state)) = [0xFF, 0xFE, 0xFF, 0x7F]" by code_simp
  have f: "find_option (opts (ucast (prev1 init_state))) 0xFF 0 = Some 0" by code_simp
  from p0 p1 o f e m show ?thesis by (intro conjI)
qed

end
